theory Spec2Isabelle
  imports Complex_Main "HOL-Library.Log_Nat"
begin

section \<open>Text primitives of the Python runtime\<close>

text \<open>
  The processor works on Python \<open>str\<close> values. A text is modelled as a \<open>string\<close>
  whose characters are the code points 0..255; the three character classes below are
  the ones Python uses on that range: \<open>str.isspace\<close> (which is also the regular
  expression class \<open>\s\<close> and the separator set of \<open>str.split()\<close>), the regular
  expression class \<open>\w\<close>, and the line boundaries of \<open>str.splitlines()\<close>.
\<close>

definition is_space :: "char \<Rightarrow> bool" where
  "is_space c = ((of_char c :: nat) \<in> {9, 10, 11, 12, 13, 28, 29, 30, 31, 32, 133, 160})"

definition is_word :: "char \<Rightarrow> bool" where
  "is_word c =
     (let n = (of_char c :: nat)
      in (48 \<le> n \<and> n \<le> 57) \<or> (65 \<le> n \<and> n \<le> 90) \<or> n = 95 \<or> (97 \<le> n \<and> n \<le> 122)
         \<or> n \<in> {170, 178, 179, 181, 185, 186, 188, 189, 190}
         \<or> (192 \<le> n \<and> n \<le> 214) \<or> (216 \<le> n \<and> n \<le> 246) \<or> 248 \<le> n)"

definition is_linebreak :: "char \<Rightarrow> bool" where
  "is_linebreak c = ((of_char c :: nat) \<in> {10, 11, 12, 13, 28, 29, 30, 133})"

text \<open>
  \<open>text.split()\<close>: the maximal runs of non-whitespace characters, in order. The
  first argument is the run read so far, reversed.
\<close>

fun str_split_acc :: "string \<Rightarrow> string \<Rightarrow> string list" where
  "str_split_acc cur [] = (if cur = [] then [] else [rev cur])"
| "str_split_acc cur (c # cs) =
     (if is_space c
      then (if cur = [] then str_split_acc [] cs else rev cur # str_split_acc [] cs)
      else str_split_acc (c # cur) cs)"

definition str_split :: "string \<Rightarrow> string list" where
  "str_split s = str_split_acc [] s"

text \<open>
  \<open>text.splitlines()\<close>: the text is cut at every line boundary, the boundary is
  dropped, a carriage return followed by a line feed is one boundary, and a boundary at
  the very end opens no further line. The flag says that the previous character was a
  carriage return.
\<close>

fun str_splitlines_acc :: "bool \<Rightarrow> string \<Rightarrow> string \<Rightarrow> string list" where
  "str_splitlines_acc after_cr cur [] = (if cur = [] then [] else [rev cur])"
| "str_splitlines_acc after_cr cur (c # cs) =
     (if after_cr \<and> c = CHR 0x0A then str_splitlines_acc False cur cs
      else if is_linebreak c then rev cur # str_splitlines_acc (c = CHR 0x0D) [] cs
      else str_splitlines_acc False (c # cur) cs)"

definition str_splitlines :: "string \<Rightarrow> string list" where
  "str_splitlines s = str_splitlines_acc False [] s"

text \<open>\<open>' '.join(parts)\<close>.\<close>

fun str_join :: "string list \<Rightarrow> string" where
  "str_join [] = []"
| "str_join [x] = x"
| "str_join (x # y # ys) = x @ CHR 0x20 # str_join (y # ys)"

text \<open>
  \<open>re.findall(r'\w+|[^\w\s]', text, re.UNICODE)\<close>: scanning from the left, a
  maximal run of word characters is one match, any other character that is not
  whitespace is a match by itself, whitespace is skipped.
\<close>

fun re_findall_acc :: "string \<Rightarrow> string \<Rightarrow> string list" where
  "re_findall_acc cur [] = (if cur = [] then [] else [rev cur])"
| "re_findall_acc cur (c # cs) =
     (if is_word c then re_findall_acc (c # cur) cs
      else (if cur = [] then [] else [rev cur])
           @ (if is_space c then [] else [[c]])
           @ re_findall_acc [] cs)"

definition re_findall :: "string \<Rightarrow> string list" where
  "re_findall s = re_findall_acc [] s"

section \<open>Failures\<close>

text \<open>
  Every failure of the source is a Python exception. The first four are the
  \<open>ValueError\<close>s the processor raises itself, named after the condition they report;
  the others are raised by the runtime or by the collaborators.
\<close>

datatype error =
    InvalidConfiguration
  | ChunkTooSmall
  | InsufficientBudget
  | InvalidInput
  | IndexError
  | KeyError
  | TypeError
  | AttributeError
  | FormatError
  | TransportError
  | OverflowError

section \<open>Python floats\<close>

text \<open>
  A Python float is an IEEE 754 binary64 value: a finite one is given by the rational
  number it denotes (the two zeros are not told apart), the others are the infinities and
  NaN. A comparison with NaN is false.
\<close>

datatype pyfloat = Finite rat | PosInf | NegInf | NaN

fun float_less :: "pyfloat \<Rightarrow> pyfloat \<Rightarrow> bool" where
  "float_less (Finite x) (Finite y) = (x < y)"
| "float_less (Finite x) PosInf = True"
| "float_less NegInf (Finite y) = True"
| "float_less NegInf PosInf = True"
| "float_less _ _ = False"

text \<open>
  The result of an arithmetic operation is the exact result rounded to the nearest
  number with 53 significant bits, a tie going to the one whose last bit is 0.
  \<open>exponent_of q\<close> is the \<open>e\<close> with \<open>2 ^ e \<le> q < 2 ^ (e + 1)\<close> for a positive
  \<open>q\<close>, found from the bit lengths of numerator and denominator; the numbers with 53
  significant bits around \<open>q\<close> are the multiples of \<open>2 ^ (e - 52)\<close>. The exponent is
  not bounded here: overflow is checked where it can happen, and no result of the
  computation below is small enough to be subnormal.
\<close>

definition pow2 :: "int \<Rightarrow> rat" where
  "pow2 k = (if 0 \<le> k then 2 ^ nat k else 1 / 2 ^ nat (- k))"

definition exponent_of :: "rat \<Rightarrow> int" where
  "exponent_of q =
     (case quotient_of q of (a, b) \<Rightarrow>
        (let d = bitlen a - bitlen b in if pow2 d \<le> q then d else d - 1))"

definition round_half_even :: "rat \<Rightarrow> int" where
  "round_half_even x =
     (let f = \<lfloor>x\<rfloor>; d = x - of_int f
      in if d < 1 / 2 then f else if 1 / 2 < d then f + 1 else if even f then f else f + 1)"

definition round_double :: "rat \<Rightarrow> rat" where
  "round_double q =
     (if q = 0 then 0
      else (let ulp = pow2 (exponent_of \<bar>q\<bar> - 52)
            in of_int (round_half_even (q / ulp)) * ulp))"

text \<open>
  The rationals that are finite floats: 53 significant bits with an exponent from -1022
  to 1023, and below that the multiples of \<open>2 ^ (-1074)\<close>.
\<close>

definition is_double :: "rat \<Rightarrow> bool" where
  "is_double q =
     (if q = 0 then True
      else (let e = exponent_of \<bar>q\<bar>
            in if e < - 1022 then of_int \<lfloor>q * 2 ^ 1074\<rfloor> = q * 2 ^ 1074
               else e \<le> 1023 \<and> round_double q = q))"

text \<open>
  The conversion of an \<open>int\<close> operand of a float operation: correctly rounded, and an
  OverflowError when the int is too large for a float.
\<close>

definition float_of_int :: "int \<Rightarrow> error + rat" where
  "float_of_int n =
     (let x = round_double (of_int n)
      in if pow2 1024 \<le> \<bar>x\<bar> then Inl OverflowError else Inr x)"

text \<open>\<open>int(x)\<close> of a finite float: the fraction is dropped, towards zero.\<close>

definition int_of_float :: "rat \<Rightarrow> int" where
  "int_of_float x = (if 0 \<le> x then \<lfloor>x\<rfloor> else \<lceil>x\<rceil>)"

section \<open>The chunk size\<close>

text \<open>
  \<open>_calculate_chunk_size\<close> reads the attributes \<open>max_tokens\<close> and
  \<open>response_ratio\<close>, here its arguments; the ratio is \<open>None\<close> or a float. Only a
  finite ratio passes the test \<open>0 < response_ratio < 1\<close>. Then \<open>1 - response_ratio\<close>
  is a float subtraction, the product converts \<open>max_tokens\<close> to a float and is a float
  multiplication, and \<open>int\<close> drops the fraction.
\<close>

definition calculate_chunk_size :: "int \<Rightarrow> pyfloat option \<Rightarrow> error + int" where
  "calculate_chunk_size max_tokens response_ratio =
     (case response_ratio of
        None \<Rightarrow> Inr max_tokens
      | Some r \<Rightarrow>
          if \<not> (float_less (Finite 0) r \<and> float_less r (Finite 1))
          then Inl InvalidConfiguration
          else (case r of
                  Finite q \<Rightarrow>
                    (case float_of_int max_tokens of
                       Inl e \<Rightarrow> Inl e
                     | Inr m \<Rightarrow> Inr (int_of_float (round_double (m * round_double (1 - q)))))
                | _ \<Rightarrow> Inl InvalidConfiguration))"

section \<open>The processor\<close>

text \<open>
  The fields of \<open>BaseAIProcessor\<close> that the token accounting reads. \<open>chunk_size\<close>
  is the attribute computed once by the constructor.
\<close>

record processor =
  model_name :: string
  max_tokens :: int
  chunk_size :: int

definition count_tokens :: "string \<Rightarrow> int" where
  "count_tokens text = (\<Sum>token \<leftarrow> re_findall text. max 1 (int (length token) div 5))"

definition calculate_reserved_tokens :: "processor \<Rightarrow> string \<Rightarrow> string \<Rightarrow> int \<Rightarrow> error + int" where
  "calculate_reserved_tokens p prompt chunk last_chunk_token_count =
     (let prompt_tokens = count_tokens prompt;
          chunk_tokens = count_tokens chunk;
          total_prompt_tokens = prompt_tokens + chunk_tokens + last_chunk_token_count;
          reserved_tokens = max_tokens p - total_prompt_tokens
      in if reserved_tokens \<le> 0 then Inl InsufficientBudget else Inr reserved_tokens)"

text \<open>
  The loop of \<open>_extract_last_chunk_end\<close> over the reversed words: the state is
  \<open>(result, token_count)\<close>, and the \<open>break\<close> returns the result collected so far.
\<close>

fun extract_loop :: "int \<Rightarrow> string list \<times> int \<Rightarrow> string list \<Rightarrow> string list" where
  "extract_loop limit (result, token_count) [] = result"
| "extract_loop limit (result, token_count) (word # ws) =
     (let word_tokens = count_tokens word
      in if token_count + word_tokens > limit then result
         else extract_loop limit (result @ [word], token_count + word_tokens) ws)"

definition extract_last_chunk_end :: "string \<Rightarrow> int \<Rightarrow> string" where
  "extract_last_chunk_end response_text last_chunk_token_count =
     (let words = str_split response_text
      in str_join (rev (extract_loop last_chunk_token_count ([], 0) (rev words))))"

text \<open>
  The two loops of \<open>_split_into_chunks\<close>. The state is
  \<open>(chunks, current_chunk, current_token_count)\<close>; \<open>pack_words\<close> is the inner loop
  over the words of a line that is too long, \<open>pack_lines\<close> the loop over the lines.
\<close>

fun pack_words ::
  "int \<Rightarrow> string list \<times> string list \<times> int \<Rightarrow> string list \<Rightarrow> string list \<times> string list \<times> int" where
  "pack_words eff st [] = st"
| "pack_words eff (chunks, current_chunk, current_token_count) (word # ws) =
     (let word_token_count = count_tokens word
      in if current_token_count + word_token_count > eff
         then pack_words eff (chunks @ [str_join current_chunk], [word], word_token_count) ws
         else pack_words eff
                (chunks, current_chunk @ [word], current_token_count + word_token_count) ws)"

fun pack_lines ::
  "int \<Rightarrow> string list \<times> string list \<times> int \<Rightarrow> string list \<Rightarrow> string list \<times> string list \<times> int" where
  "pack_lines eff st [] = st"
| "pack_lines eff (chunks, current_chunk, current_token_count) (line # ls) =
     (let line_token_count = count_tokens line
      in if line_token_count > eff
         then pack_lines eff
                (pack_words eff (chunks, current_chunk, current_token_count) (str_split line)) ls
         else if current_token_count + line_token_count > eff
         then pack_lines eff (chunks @ [str_join current_chunk], [line], line_token_count) ls
         else pack_lines eff
                (chunks, current_chunk @ [line], current_token_count + line_token_count) ls)"

definition effective_chunk_size :: "processor \<Rightarrow> string \<Rightarrow> bool \<Rightarrow> int" where
  "effective_chunk_size p last_chunk_end include_last_chunk =
     (if include_last_chunk then chunk_size p - count_tokens last_chunk_end else chunk_size p)"

definition split_into_chunks ::
  "processor \<Rightarrow> string \<Rightarrow> string \<Rightarrow> bool \<Rightarrow> error + string list" where
  "split_into_chunks p context last_chunk_end include_last_chunk =
     (let eff = effective_chunk_size p last_chunk_end include_last_chunk
      in if eff \<le> 0 then Inl ChunkTooSmall
         else (case pack_lines eff ([], [], 0) (str_splitlines context) of
                 (chunks, current_chunk, current_token_count) \<Rightarrow>
                   Inr (if current_chunk \<noteq> [] then chunks @ [str_join current_chunk]
                        else chunks)))"

section \<open>The continuity tail as the specification words it\<close>

text \<open>
  The words of the response are walked from the last one backward. \<open>running k\<close> is
  the token estimate of the last \<open>k\<close> words; words are kept for as long as the
  estimate stays within the bound, the first word that would exceed it ends the walk and
  is dropped, and the kept words are joined in their original order.
\<close>

definition tail_walk_spec :: "string \<Rightarrow> int \<Rightarrow> string" where
  "tail_walk_spec response_text max_tail_tokens =
     (let backward = rev (str_split response_text);
          running = (\<lambda>k. sum_list (map count_tokens (take k backward)));
          kept = length (takeWhile (\<lambda>k. running k \<le> max_tail_tokens)
                          [1..<Suc (length backward)])
      in str_join (rev (take kept backward)))"

section \<open>Responses of the model endpoint\<close>

text \<open>
  What \<open>await response.json()\<close> returns: a Python value decoded from JSON. A dict
  is the list of its items. The processor does no arithmetic on the floats it receives,
  so their type is left open.
\<close>

datatype 'n json =
    JNull
  | JBool bool
  | JInt int
  | JFloat 'n
  | JStr string
  | JArr "'n json list"
  | JObj "(string \<times> 'n json) list"

definition ebind :: "error + 'a \<Rightarrow> ('a \<Rightarrow> error + 'b) \<Rightarrow> error + 'b" where
  "ebind m f = (case m of Inl e \<Rightarrow> Inl e | Inr x \<Rightarrow> f x)"

text \<open>\<open>obj.get(key, dflt)\<close>: only a dict has the method.\<close>

definition py_get :: "'n json \<Rightarrow> string \<Rightarrow> 'n json \<Rightarrow> error + 'n json" where
  "py_get obj key dflt =
     (case obj of
        JObj items \<Rightarrow> (case map_of items key of Some v \<Rightarrow> Inr v | None \<Rightarrow> Inr dflt)
      | _ \<Rightarrow> Inl AttributeError)"

text \<open>
  \<open>obj[0]\<close>: the first element of a list or of a string, IndexError when it is empty;
  a dict decoded from JSON has string keys only, so the key 0 is missing; nothing else
  can be subscripted.
\<close>

definition py_first :: "'n json \<Rightarrow> error + 'n json" where
  "py_first obj =
     (case obj of
        JArr xs \<Rightarrow> (case xs of [] \<Rightarrow> Inl IndexError | x # _ \<Rightarrow> Inr x)
      | JStr s \<Rightarrow> (case s of [] \<Rightarrow> Inl IndexError | c # _ \<Rightarrow> Inr (JStr [c]))
      | JObj items \<Rightarrow> Inl KeyError
      | _ \<Rightarrow> Inl TypeError)"

text \<open>\<open>len(obj)\<close>.\<close>

definition py_len :: "'n json \<Rightarrow> error + int" where
  "py_len obj =
     (case obj of
        JStr s \<Rightarrow> Inr (int (length s))
      | JArr xs \<Rightarrow> Inr (int (length xs))
      | JObj items \<Rightarrow> Inr (int (length items))
      | _ \<Rightarrow> Inl TypeError)"

text \<open>
  \<open>_format_with_truncation\<close> on a response value. Its result only goes into a log
  message, so the model keeps what can go wrong: \<open>len(text)\<close>, and the slice
  \<open>text[:max_length]\<close> of a text that is longer, which a dict does not support (a
  TypeError, a KeyError from Python 3.12 on).
\<close>

definition format_with_truncation :: "'n json \<Rightarrow> int \<Rightarrow> error + unit" where
  "format_with_truncation text max_length =
     ebind (py_len text) (\<lambda>n.
       if n > max_length then (case text of JObj items \<Rightarrow> Inl TypeError | _ \<Rightarrow> Inr ())
       else Inr ())"

text \<open>
  \<open>ChatProcessor._call_model\<close>. \<open>post\<close> is the HTTP exchange: it takes the
  request payload and gives the decoded response or fails.
\<close>

definition chat_call_model ::
  "processor \<Rightarrow> ('n json \<Rightarrow> error + 'n json) \<Rightarrow> string \<Rightarrow> string \<Rightarrow> error + 'n json" where
  "chat_call_model p post prompt input_text =
     (let payload = JObj
            [(''model'', JStr (model_name p)),
             (''messages'', JArr
                [JObj [(''role'', JStr ''system''), (''content'', JStr prompt)],
                 JObj [(''role'', JStr ''user''), (''content'', JStr input_text)]]),
             (''max_tokens'', JInt (chunk_size p))]
      in ebind (post payload) (\<lambda>response_data.
         ebind (py_get response_data ''choices'' (JArr [JObj []])) (\<lambda>choices.
         ebind (py_first choices) (\<lambda>choice.
         ebind (py_get choice ''message'' (JObj [])) (\<lambda>message.
         ebind (py_get message ''content'' (JStr [])) (\<lambda>response_text.
         ebind (format_with_truncation response_text 50) (\<lambda>_.
         Inr response_text)))))))"

text \<open>\<open>EmbeddingsProcessor._call_model\<close>; the length of the embedding is logged.\<close>

definition embeddings_call_model ::
  "processor \<Rightarrow> ('n json \<Rightarrow> error + 'n json) \<Rightarrow> string \<Rightarrow> string \<Rightarrow> error + 'n json" where
  "embeddings_call_model p post prompt input_text =
     (let payload = JObj [(''model'', JStr (model_name p)), (''input'', JStr input_text)]
      in ebind (post payload) (\<lambda>response_data.
         ebind (py_get response_data ''data'' (JArr [JObj []])) (\<lambda>data.
         ebind (py_first data) (\<lambda>first.
         ebind (py_get first ''embedding'' (JArr [])) (\<lambda>embedding.
         ebind (py_len embedding) (\<lambda>_.
         Inr embedding))))))"

section \<open>The embeddings run\<close>

text \<open>
  The argument of \<open>EmbeddingsProcessor.process\<close> is a list of messages or some
  other value. The loop state is the list \<open>embeddings\<close>; the counter is the index that
  \<open>enumerate\<close> gives, and the exchange of the message with that index is
  \<open>post i\<close>.
\<close>

datatype py_context = PyList "string list" | PyOther

record 'n embedding_result =
  emb_index :: int
  emb_message :: string
  emb_embedding :: "'n json"

fun embeddings_loop ::
  "processor \<Rightarrow> (nat \<Rightarrow> 'n json \<Rightarrow> error + 'n json) \<Rightarrow> nat \<Rightarrow> 'n embedding_result list
     \<Rightarrow> string list \<Rightarrow> error + 'n embedding_result list" where
  "embeddings_loop p post i embeddings [] = Inr embeddings"
| "embeddings_loop p post i embeddings (message # rest) =
     (case embeddings_call_model p (post i) [] message of
        Inl e \<Rightarrow> Inl e
      | Inr embedding \<Rightarrow>
          embeddings_loop p post (Suc i)
            (embeddings @ [\<lparr>emb_index = int i, emb_message = message,
                            emb_embedding = embedding\<rparr>]) rest)"

definition embeddings_process ::
  "processor \<Rightarrow> (nat \<Rightarrow> 'n json \<Rightarrow> error + 'n json) \<Rightarrow> py_context
     \<Rightarrow> error + 'n embedding_result list" where
  "embeddings_process p post context =
     (case context of
        PyOther \<Rightarrow> Inl InvalidInput
      | PyList messages \<Rightarrow> embeddings_loop p post 0 [] messages)"

section \<open>The chat run\<close>

text \<open>
  The arguments of \<open>ChatProcessor.process\<close>. A key that the \<open>options\<close> dict does
  not hold is \<open>None\<close>, and the dict itself may be absent. \<open>str.format\<close> belongs
  to the Python runtime: the run takes it as the function \<open>fmt\<close> from the template
  and the value of \<open>last_chunk_end\<close> to the prompt or to the exception it raises.
\<close>

record prompts =
  initial :: string
  follow_up_template :: string

record options =
  opt_include_last_chunk :: "bool option"
  opt_last_chunk_token_count :: "int option"

record 'n chunk_result =
  res_index :: int
  res_input_text :: string
  res_response_text :: "'n json"

text \<open>\<open>options.get("include_last_chunk", False) if options else False\<close>.\<close>

definition include_last_chunk_of :: "options option \<Rightarrow> bool" where
  "include_last_chunk_of opts =
     (case opts of
        None \<Rightarrow> False
      | Some d \<Rightarrow> (case opt_include_last_chunk d of None \<Rightarrow> False | Some b \<Rightarrow> b))"

text \<open>
  \<open>self._extract_last_chunk_end(response_text)\<close>, called with the limit left at its
  default of 50; only a string has \<open>split\<close>.
\<close>

definition extract_from_response :: "'n json \<Rightarrow> error + string" where
  "extract_from_response response_text =
     (case response_text of
        JStr s \<Rightarrow> Inr (extract_last_chunk_end s 50)
      | _ \<Rightarrow> Inl AttributeError)"

text \<open>
  The body of the loop over the chunks, for the chunk with index \<open>i\<close>. The state is
  \<open>(last_chunk_end, last_chunk_token_count, results)\<close>; the exchange of this chunk
  is \<open>post i\<close>.
\<close>

fun chat_step ::
  "processor \<Rightarrow> (string \<Rightarrow> string \<Rightarrow> error + string) \<Rightarrow> (nat \<Rightarrow> 'n json \<Rightarrow> error + 'n json)
     \<Rightarrow> prompts \<Rightarrow> bool \<Rightarrow> nat \<Rightarrow> string \<times> int \<times> 'n chunk_result list \<Rightarrow> string
     \<Rightarrow> error + string \<times> int \<times> 'n chunk_result list" where
  "chat_step p fmt post ps incl i (last_chunk_end, last_chunk_token_count, results) chunk =
     ebind (if i = 0 then Inr (initial ps) else fmt (follow_up_template ps) last_chunk_end)
       (\<lambda>prompt.
     ebind (calculate_reserved_tokens p prompt chunk last_chunk_token_count)
       (\<lambda>reserved_tokens.
     ebind (chat_call_model p (post i) prompt chunk)
       (\<lambda>response_text.
          (let results' = results @ [\<lparr>res_index = int i + 1, res_input_text = chunk,
                                       res_response_text = response_text\<rparr>]
           in if incl
              then ebind (extract_from_response response_text)
                     (\<lambda>last_chunk_end'.
                        Inr (last_chunk_end', count_tokens last_chunk_end', results'))
              else Inr (last_chunk_end, last_chunk_token_count, results')))))"

text \<open>The loop: an exception in the body ends the run.\<close>

fun chat_loop ::
  "processor \<Rightarrow> (string \<Rightarrow> string \<Rightarrow> error + string) \<Rightarrow> (nat \<Rightarrow> 'n json \<Rightarrow> error + 'n json)
     \<Rightarrow> prompts \<Rightarrow> bool \<Rightarrow> nat \<Rightarrow> string \<times> int \<times> 'n chunk_result list \<Rightarrow> string list
     \<Rightarrow> error + string \<times> int \<times> 'n chunk_result list" where
  "chat_loop p fmt post ps incl i st [] = Inr st"
| "chat_loop p fmt post ps incl i st (chunk # rest) =
     (case chat_step p fmt post ps incl i st chunk of
        Inl e \<Rightarrow> Inl e
      | Inr st' \<Rightarrow> chat_loop p fmt post ps incl (Suc i) st' rest)"

text \<open>
  \<open>chat_run\<close> is the body of \<open>process\<close> up to the end of the loop, with the
  loop's final state; \<open>chat_process\<close> returns the results of a successful run.
\<close>

definition chat_run ::
  "processor \<Rightarrow> (string \<Rightarrow> string \<Rightarrow> error + string) \<Rightarrow> (nat \<Rightarrow> 'n json \<Rightarrow> error + 'n json)
     \<Rightarrow> string \<Rightarrow> prompts \<Rightarrow> options option \<Rightarrow> error + string \<times> int \<times> 'n chunk_result list" where
  "chat_run p fmt post context ps opts =
     (let incl = include_last_chunk_of opts
      in case split_into_chunks p context [] incl of
           Inl e \<Rightarrow> Inl e
         | Inr chunks \<Rightarrow> chat_loop p fmt post ps incl 0 ([], 0, []) chunks)"

definition chat_process ::
  "processor \<Rightarrow> (string \<Rightarrow> string \<Rightarrow> error + string) \<Rightarrow> (nat \<Rightarrow> 'n json \<Rightarrow> error + 'n json)
     \<Rightarrow> string \<Rightarrow> prompts \<Rightarrow> options option \<Rightarrow> error + 'n chunk_result list" where
  "chat_process p fmt post context ps opts =
     (case chat_run p fmt post context ps opts of
        Inl e \<Rightarrow> Inl e
      | Inr (last_chunk_end, last_chunk_token_count, results) \<Rightarrow> Inr results)"

section \<open>Notions used to state the properties of the splitter\<close>

text \<open>
  A chunk that is one whitespace-free word whose own token count exceeds the budget.
\<close>

definition oversized_word :: "int \<Rightarrow> string \<Rightarrow> bool" where
  "oversized_word eff chunk = (str_split chunk = [chunk] \<and> eff < count_tokens chunk)"

text \<open>
  The invariant of both loops: every closed chunk is within the budget or an oversized
  word, the counter is the token count of the pending pieces, and the pending pieces
  are within the budget unless they are one single word.
\<close>

definition pack_inv :: "int \<Rightarrow> string list \<times> string list \<times> int \<Rightarrow> bool" where
  "pack_inv eff st =
     (case st of (chunks, current_chunk, current_token_count) \<Rightarrow>
        list_all (\<lambda>c. count_tokens c \<le> eff \<or> oversized_word eff c) chunks
        \<and> current_token_count = sum_list (map count_tokens current_chunk)
        \<and> (current_token_count \<le> eff
            \<or> (case current_chunk of [w] \<Rightarrow> str_split w = [w] | _ \<Rightarrow> False)))"

text \<open>The words held by a loop state, closed chunks first.\<close>

definition pack_words_of :: "string list \<times> string list \<times> int \<Rightarrow> string list" where
  "pack_words_of st =
     (case st of (chunks, current_chunk, current_token_count) \<Rightarrow>
        concat (map str_split chunks) @ concat (map str_split current_chunk))"

text \<open>
  Whitespace normalisation: every maximal run of whitespace characters, line boundaries
  included, becomes one blank (the flag says that the previous character was
  whitespace), then the blanks at both ends are removed.
\<close>

fun collapse_ws :: "bool \<Rightarrow> string \<Rightarrow> string" where
  "collapse_ws in_run [] = []"
| "collapse_ws in_run (c # cs) =
     (if is_space c
      then (if in_run then collapse_ws True cs else CHR 0x20 # collapse_ws True cs)
      else c # collapse_ws False cs)"

definition ltrim :: "string \<Rightarrow> string" where
  "ltrim s = dropWhile (\<lambda>c. c = CHR 0x20) s"

definition rtrim :: "string \<Rightarrow> string" where
  "rtrim s = rev (ltrim (rev s))"

definition normalize_ws :: "string \<Rightarrow> string" where
  "normalize_ws s = rtrim (ltrim (collapse_ws False s))"

section \<open>Character classes and the token estimate\<close>

lemma is_space_not_word: "is_space c \<Longrightarrow> \<not> is_word c"
  by (auto simp: is_space_def is_word_def Let_def)

lemma is_linebreak_space: "is_linebreak c \<Longrightarrow> is_space c"
  by (auto simp: is_space_def is_linebreak_def)

lemma is_space_blank [simp]: "is_space (CHR 0x20)"
  by (simp add: is_space_def)

text \<open>A whitespace character ends the match before it, so the matches on both sides add up.\<close>

lemma re_findall_acc_sep:
  "is_space c \<Longrightarrow> re_findall_acc cur (a @ c # b) = re_findall_acc cur a @ re_findall_acc [] b"
  by (induction a arbitrary: cur) (auto simp: is_space_not_word)

lemma count_tokens_sep:
  "is_space c \<Longrightarrow> count_tokens (a @ c # b) = count_tokens a + count_tokens b"
  by (simp add: count_tokens_def re_findall_def re_findall_acc_sep)

lemma count_tokens_Nil [simp]: "count_tokens [] = 0"
  by (simp add: count_tokens_def re_findall_def)

lemma count_tokens_str_join: "count_tokens (str_join ps) = sum_list (map count_tokens ps)"
  by (induction ps rule: str_join.induct) (simp_all add: count_tokens_sep)

lemma count_tokens_nonneg: "0 \<le> count_tokens s"
  unfolding count_tokens_def by (rule sum_list_nonneg) auto

lemma re_findall_acc_word_run:
  "is_word c \<Longrightarrow> re_findall_acc cur (replicate n c) =
     (if cur = [] \<and> n = 0 then [] else [rev cur @ replicate n c])"
  by (induction n arbitrary: cur) (auto simp: replicate_app_Cons_same)

lemma count_tokens_word_run:
  "is_word c \<Longrightarrow> count_tokens (replicate n c) = (if n = 0 then 0 else max 1 (int n div 5))"
  by (simp add: count_tokens_def re_findall_def re_findall_acc_word_run)

section \<open>Reserved tokens\<close>

text \<open>
  Claim C7. The reserved tokens are \<open>max_tokens\<close> minus the token counts of the prompt
  and of the chunk and the carried tail's count; the call fails with InsufficientBudget
  exactly when that difference is not positive and returns the difference otherwise.
  With \<open>max_tokens = 200\<close>, a prompt of 1000 letters a and a chunk of 1000 letters b
  fail.
\<close>

theorem reserved_tokens_spec:
  "calculate_reserved_tokens p prompt chunk carried =
     (if max_tokens p - (count_tokens prompt + count_tokens chunk + carried) \<le> 0
      then Inl InsufficientBudget
      else Inr (max_tokens p - (count_tokens prompt + count_tokens chunk + carried)))
   \<and> calculate_reserved_tokens (p\<lparr>max_tokens := 200\<rparr>)
        (replicate 1000 (CHR ''a'')) (replicate 1000 (CHR ''b'')) 0 = Inl InsufficientBudget"
proof -
  have a: "is_word (CHR ''a'')" and b: "is_word (CHR ''b'')"
    by (simp_all add: is_word_def)
  show ?thesis
    by (simp add: calculate_reserved_tokens_def Let_def count_tokens_word_run [OF a]
        count_tokens_word_run [OF b])
qed

section \<open>The continuity tail\<close>

lemma upt_shift: "[Suc i..<Suc j] = map Suc [i..<j]"
  by (simp add: map_Suc_upt)

text \<open>
  The loop keeps the longest run of words, from the first one it is given, whose token
  counts added to the count it starts from stay within the limit.
\<close>

lemma extract_loop_takeWhile:
  "extract_loop limit (result, tc) ws =
     result @ take (length (takeWhile
                 (\<lambda>k. tc + sum_list (map count_tokens (take k ws)) \<le> limit)
                 [1..<Suc (length ws)])) ws"
proof (induction ws arbitrary: result tc)
  case Nil
  then show ?case by simp
next
  case (Cons w ws)
  have "[1..<Suc (length (w # ws))] = 1 # [Suc 1..<Suc (Suc (length ws))]"
    by (simp add: upt_conv_Cons del: upt_Suc)
  then have upt: "[1..<Suc (length (w # ws))] = 1 # map Suc [1..<Suc (length ws)]"
    by (simp only: upt_shift)
  show ?case
  proof (cases "tc + count_tokens w > limit")
    case True
    then show ?thesis
      by (simp only: upt) simp
  next
    case False
    then show ?thesis
      apply (simp only: upt)
      apply (simp add: Cons.IH takeWhile_map comp_def add.assoc)
      done
  qed
qed

text \<open>
  Claim C8. The extracted tail is the backward walk over the response's words that the
  specification describes, and the tail of
  "This is a test response. It has some content." within 3 tokens is "some content.".
\<close>

theorem extract_last_chunk_end_walk:
  "extract_last_chunk_end response_text max_tail_tokens
     = tail_walk_spec response_text max_tail_tokens
   \<and> extract_last_chunk_end ''This is a test response. It has some content.'' 3
     = ''some content.''"
proof
  show "extract_last_chunk_end response_text max_tail_tokens
          = tail_walk_spec response_text max_tail_tokens"
    by (simp add: extract_last_chunk_end_def tail_walk_spec_def Let_def extract_loop_takeWhile)
  show "extract_last_chunk_end ''This is a test response. It has some content.'' 3
          = ''some content.''"
    by code_simp
qed

section \<open>The chunk splitter\<close>

text \<open>
  Claim C10. There is a non-empty context and a positive effective budget for which the
  chunks contain the empty string: the only line is too long, it is split into words
  while nothing is pending, and its first word alone exceeds the budget, so the empty
  pending chunk is closed before the word seeds the next one.
\<close>

theorem split_yields_empty_chunk:
  "\<exists>p context chunks.
     context \<noteq> [] \<and> 0 < effective_chunk_size p [] False
     \<and> split_into_chunks p context [] False = Inr chunks \<and> [] \<in> set chunks
     \<and> pack_words (effective_chunk_size p [] False) ([], [], 0) (str_split context)
         = ([[]], [context], count_tokens context)"
proof -
  let ?p = "\<lparr>model_name = ''m'', max_tokens = 200, chunk_size = 1\<rparr>"
  have 1: "0 < effective_chunk_size ?p [] False"
    by (simp add: effective_chunk_size_def)
  have 2: "split_into_chunks ?p ''aaaaaaaaaa'' [] False = Inr [[], ''aaaaaaaaaa'']"
    by code_simp
  have 3: "pack_words (effective_chunk_size ?p [] False) ([], [], 0) (str_split ''aaaaaaaaaa'')
             = ([[]], [''aaaaaaaaaa''], count_tokens ''aaaaaaaaaa'')"
    by code_simp
  show ?thesis
    apply (rule exI [of _ ?p])
    apply (rule exI [of _ "''aaaaaaaaaa''"])
    apply (rule exI [of _ "[[], ''aaaaaaaaaa'']"])
    using 1 2 3 apply simp
    done
qed

section \<open>Words\<close>

lemma str_split_acc_words:
  "\<forall>c\<in>set cur. \<not> is_space c \<Longrightarrow> w \<in> set (str_split_acc cur s)
     \<Longrightarrow> w \<noteq> [] \<and> (\<forall>c\<in>set w. \<not> is_space c)"
proof (induction s arbitrary: cur)
  case Nil
  then show ?case by (simp split: if_splits)
next
  case (Cons a s)
  show ?case
  proof (cases "is_space a")
    case True
    have emp: "\<forall>c\<in>set ([]::string). \<not> is_space c" by simp
    from True Cons.prems(2) have "(w = rev cur \<and> cur \<noteq> []) \<or> w \<in> set (str_split_acc [] s)"
      by (simp split: if_splits)
    then show ?thesis
    proof
      assume "w = rev cur \<and> cur \<noteq> []"
      then show ?thesis using Cons.prems(1) by simp
    next
      assume "w \<in> set (str_split_acc [] s)"
      then show ?thesis by (rule Cons.IH [OF emp])
    qed
  next
    case False
    have ok: "\<forall>c\<in>set (a # cur). \<not> is_space c"
      using False Cons.prems(1) by simp
    from False Cons.prems(2) have "w \<in> set (str_split_acc (a # cur) s)"
      by simp
    then show ?thesis by (rule Cons.IH [OF ok])
  qed
qed

lemma str_split_acc_no_space:
  "\<forall>c\<in>set s. \<not> is_space c \<Longrightarrow>
     str_split_acc cur s = (if cur = [] \<and> s = [] then [] else [rev cur @ s])"
  by (induction s arbitrary: cur) auto

lemma str_split_word: "w \<in> set (str_split s) \<Longrightarrow> str_split w = [w]"
proof -
  assume "w \<in> set (str_split s)"
  then have "w \<noteq> [] \<and> (\<forall>c\<in>set w. \<not> is_space c)"
    using str_split_acc_words [of "[]" w s] by (simp add: str_split_def)
  then show ?thesis
    by (simp add: str_split_def str_split_acc_no_space)
qed

lemma str_split_acc_sep:
  "is_space c \<Longrightarrow> str_split_acc cur (a @ c # b) = str_split_acc cur a @ str_split_acc [] b"
  by (induction a arbitrary: cur) auto

lemma str_split_sep: "is_space c \<Longrightarrow> str_split (a @ c # b) = str_split a @ str_split b"
  by (simp add: str_split_def str_split_acc_sep)

lemma str_split_Nil [simp]: "str_split [] = []"
  by (simp add: str_split_def)

lemma str_split_str_join: "str_split (str_join ps) = concat (map str_split ps)"
  by (induction ps rule: str_join.induct) (simp_all add: str_split_sep)

lemma concat_str_split_words: "\<forall>w\<in>set ws. str_split w = [w] \<Longrightarrow> concat (map str_split ws) = ws"
  by (induction ws) simp_all

lemma str_split_idem: "concat (map str_split (str_split s)) = str_split s"
  by (rule concat_str_split_words) (simp add: str_split_word)

lemma str_splitlines_acc_words:
  "(after_cr \<longrightarrow> cur = []) \<Longrightarrow>
     concat (map str_split (str_splitlines_acc after_cr cur s)) = str_split (rev cur @ s)"
proof (induction s arbitrary: after_cr cur)
  case Nil
  then show ?case by simp
next
  case (Cons c cs)
  consider (lf) "after_cr" "c = CHR 0x0A"
    | (brk) "\<not> (after_cr \<and> c = CHR 0x0A)" "is_linebreak c"
    | (chr) "\<not> (after_cr \<and> c = CHR 0x0A)" "\<not> is_linebreak c"
    by blast
  then show ?case
  proof cases
    case lf
    have sp: "is_space c" using lf by (simp add: is_space_def)
    have "cur = []" using lf Cons.prems by simp
    then show ?thesis
      using lf sp Cons.IH [of False "[]"] str_split_sep [OF sp, of "[]" cs] by simp
  next
    case brk
    have sp: "is_space c" using brk by (simp add: is_linebreak_space)
    show ?thesis
      using brk Cons.IH [of "c = CHR 0x0D" "[]"] str_split_sep [OF sp, of "rev cur" cs]
      by auto
  next
    case chr
    then show ?thesis
      using Cons.IH [of False "c # cur"] by auto
  qed
qed

lemma str_splitlines_words: "concat (map str_split (str_splitlines s)) = str_split s"
  using str_splitlines_acc_words [of False "[]" s] by (simp add: str_splitlines_def)

section \<open>Chunks stay within the budget\<close>

lemma pack_inv_flush:
  assumes "pack_inv eff (chunks, cur, cnt)"
  shows "list_all (\<lambda>c. count_tokens c \<le> eff \<or> oversized_word eff c) (chunks @ [str_join cur])"
proof -
  have cnt: "count_tokens (str_join cur) = cnt"
    using assms by (simp add: pack_inv_def count_tokens_str_join)
  have "count_tokens (str_join cur) \<le> eff \<or> oversized_word eff (str_join cur)"
  proof (cases "cnt \<le> eff")
    case True
    then show ?thesis using cnt by simp
  next
    case False
    then obtain w where w: "cur = [w]" "str_split w = [w]"
      using assms by (auto simp: pack_inv_def split: list.splits)
    then show ?thesis using False cnt by (simp add: oversized_word_def)
  qed
  then show ?thesis using assms by (simp add: pack_inv_def)
qed

lemma pack_words_inv:
  "pack_inv eff st \<Longrightarrow> \<forall>w\<in>set ws. str_split w = [w] \<Longrightarrow> pack_inv eff (pack_words eff st ws)"
proof (induction ws arbitrary: st)
  case Nil
  then show ?case by simp
next
  case (Cons word ws)
  obtain chunks cur cnt where st: "st = (chunks, cur, cnt)"
    by (cases st)
  have inv: "pack_inv eff (chunks, cur, cnt)"
    using Cons.prems(1) st by simp
  have word: "str_split word = [word]" and rest: "\<forall>w\<in>set ws. str_split w = [w]"
    using Cons.prems(2) by simp_all
  show ?case
  proof (cases "cnt + count_tokens word > eff")
    case True
    have "pack_inv eff (chunks @ [str_join cur], [word], count_tokens word)"
      using pack_inv_flush [OF inv] word by (simp add: pack_inv_def)
    then show ?thesis
      using True st Cons.IH rest by simp
  next
    case False
    have "pack_inv eff (chunks, cur @ [word], cnt + count_tokens word)"
      using inv False by (simp add: pack_inv_def)
    then show ?thesis
      using False st Cons.IH rest by simp
  qed
qed

lemma pack_lines_inv:
  "pack_inv eff st \<Longrightarrow> pack_inv eff (pack_lines eff st ls)"
proof (induction ls arbitrary: st)
  case Nil
  then show ?case by simp
next
  case (Cons line ls)
  obtain chunks cur cnt where st: "st = (chunks, cur, cnt)"
    by (cases st)
  have inv: "pack_inv eff (chunks, cur, cnt)"
    using Cons.prems st by simp
  consider (long) "count_tokens line > eff"
    | (close) "\<not> count_tokens line > eff" "cnt + count_tokens line > eff"
    | (append) "\<not> count_tokens line > eff" "\<not> cnt + count_tokens line > eff"
    by blast
  then show ?case
  proof cases
    case long
    have "pack_inv eff (pack_words eff (chunks, cur, cnt) (str_split line))"
      using inv by (rule pack_words_inv) (simp add: str_split_word)
    then show ?thesis
      using long st Cons.IH by simp
  next
    case close
    have "pack_inv eff (chunks @ [str_join cur], [line], count_tokens line)"
      using pack_inv_flush [OF inv] close(1) by (simp add: pack_inv_def)
    then show ?thesis
      using close st Cons.IH by simp
  next
    case append
    have "pack_inv eff (chunks, cur @ [line], cnt + count_tokens line)"
      using inv append by (simp add: pack_inv_def)
    then show ?thesis
      using append st Cons.IH by simp
  qed
qed

text \<open>
  Claim C4. When the split succeeds, every chunk it returns has a token count of at most
  the effective budget, except possibly a chunk that is a single whitespace-free word
  whose own token count exceeds the effective budget.
\<close>

theorem split_chunks_within_budget:
  assumes "split_into_chunks p context last_chunk_end include_last_chunk = Inr chunks"
  shows "\<forall>chunk\<in>set chunks.
           count_tokens chunk \<le> effective_chunk_size p last_chunk_end include_last_chunk
           \<or> oversized_word (effective_chunk_size p last_chunk_end include_last_chunk) chunk"
proof -
  let ?eff = "effective_chunk_size p last_chunk_end include_last_chunk"
  obtain cs cur cnt where run: "pack_lines ?eff ([], [], 0) (str_splitlines context) = (cs, cur, cnt)"
    by (cases "pack_lines ?eff ([], [], 0) (str_splitlines context)")
  have pos: "0 < ?eff"
    using assms by (simp add: split_into_chunks_def Let_def split: if_splits)
  then have "pack_inv ?eff ([], [], 0)"
    by (simp add: pack_inv_def)
  then have inv: "pack_inv ?eff (cs, cur, cnt)"
    using pack_lines_inv [of ?eff "([], [], 0)" "str_splitlines context"] run by simp
  have chunks: "chunks = (if cur \<noteq> [] then cs @ [str_join cur] else cs)"
    using assms pos run by (simp add: split_into_chunks_def Let_def)
  have "list_all (\<lambda>c. count_tokens c \<le> ?eff \<or> oversized_word ?eff c) chunks"
    using pack_inv_flush [OF inv] inv chunks by (simp add: pack_inv_def)
  then show ?thesis
    by (simp add: list_all_iff)
qed

theorem split_chunks_within_budget_witness:
  "split_into_chunks \<lparr>model_name = ''m'', max_tokens = 200, chunk_size = 2\<rparr>
       (''aa'' @ [CHR 0x0A] @ ''bb cc'' @ [CHR 0x0A] @ ''dddddddddddddddd ee ff gg'') [] False
     = Inr [''aa'', ''bb cc'', ''dddddddddddddddd'', ''ee ff'', ''gg'']
   \<and> list_all (\<lambda>chunk. count_tokens chunk \<le> 2 \<or> oversized_word 2 chunk)
        [''aa'', ''bb cc'', ''dddddddddddddddd'', ''ee ff'', ''gg'']"
proof -
  let ?p = "\<lparr>model_name = ''m'', max_tokens = 200, chunk_size = 2\<rparr>"
  have run: "split_into_chunks ?p
       (''aa'' @ [CHR 0x0A] @ ''bb cc'' @ [CHR 0x0A] @ ''dddddddddddddddd ee ff gg'') [] False
     = Inr [''aa'', ''bb cc'', ''dddddddddddddddd'', ''ee ff'', ''gg'']"
    by code_simp
  show ?thesis
    using run split_chunks_within_budget [OF run]
    by (simp add: effective_chunk_size_def list_all_iff)
qed

section \<open>The chunks keep the words of the text\<close>

lemma pack_words_content:
  "pack_words_of (pack_words eff st ws) = pack_words_of st @ concat (map str_split ws)"
proof (induction ws arbitrary: st)
  case Nil
  then show ?case by simp
next
  case (Cons word ws)
  obtain chunks cur cnt where st: "st = (chunks, cur, cnt)"
    by (cases st)
  show ?case
    using Cons.IH st by (simp add: pack_words_of_def str_split_str_join Let_def)
qed

lemma pack_lines_content:
  "pack_words_of (pack_lines eff st ls) = pack_words_of st @ concat (map str_split ls)"
proof (induction ls arbitrary: st)
  case Nil
  then show ?case by simp
next
  case (Cons line ls)
  obtain chunks cur cnt where st: "st = (chunks, cur, cnt)"
    by (cases st)
  show ?case
    using Cons.IH st
    by (simp add: pack_words_content str_split_idem Let_def)
       (simp add: pack_words_of_def str_split_str_join)
qed

lemma split_into_chunks_words:
  assumes "split_into_chunks p context last_chunk_end include_last_chunk = Inr chunks"
  shows "str_split (str_join chunks) = str_split context"
proof -
  let ?eff = "effective_chunk_size p last_chunk_end include_last_chunk"
  obtain cs cur cnt where run: "pack_lines ?eff ([], [], 0) (str_splitlines context) = (cs, cur, cnt)"
    by (cases "pack_lines ?eff ([], [], 0) (str_splitlines context)")
  have pos: "0 < ?eff"
    using assms by (simp add: split_into_chunks_def Let_def split: if_splits)
  have chunks: "chunks = (if cur \<noteq> [] then cs @ [str_join cur] else cs)"
    using assms pos run by (simp add: split_into_chunks_def Let_def)
  have "pack_words_of (cs, cur, cnt) = str_split context"
    using pack_lines_content [of ?eff "([], [], 0)" "str_splitlines context"] run
    by (simp add: pack_words_of_def str_splitlines_words)
  then show ?thesis
    using chunks by (auto simp: pack_words_of_def str_split_str_join)
qed

section \<open>Whitespace normalisation\<close>

lemma str_split_acc_nonempty:
  "\<forall>c\<in>set cur. \<not> is_space c \<Longrightarrow> w \<in> set (str_split_acc cur s) \<Longrightarrow> w \<noteq> []"
  using str_split_acc_words by blast

lemma rtrim_Nil [simp]: "rtrim [] = []"
  by (simp add: rtrim_def ltrim_def)

lemma rtrim_append:
  "rtrim (a @ b) = (if rtrim b = [] then rtrim a else a @ rtrim b)"
  by (auto simp: rtrim_def ltrim_def dropWhile_append dropWhile_eq_Nil_conv)

lemma rtrim_word: "cur \<noteq> [] \<Longrightarrow> \<forall>c\<in>set cur. \<not> is_space c \<Longrightarrow> rtrim (rev cur) = rev cur"
  by (cases cur) (auto simp: rtrim_def ltrim_def)

lemma str_join_nonempty: "ws \<noteq> [] \<Longrightarrow> \<forall>w\<in>set ws. w \<noteq> [] \<Longrightarrow> str_join ws \<noteq> []"
  by (induction ws rule: str_join.induct) simp_all

lemma str_join_Cons: "str_join (w # ws) = (if ws = [] then w else w @ CHR 0x20 # str_join ws)"
  by (cases ws) simp_all

lemma collapse_ws_words:
  "(\<forall>cur. cur \<noteq> [] \<longrightarrow> (\<forall>c\<in>set cur. \<not> is_space c) \<longrightarrow>
       rtrim (rev cur @ collapse_ws False s) = str_join (str_split_acc cur s))
   \<and> rtrim (collapse_ws True s) = str_join (str_split_acc [] s)"
proof (induction s)
  case Nil
  then show ?case by (simp add: rtrim_word)
next
  case (Cons c cs)
  have IH1: "\<And>cur. cur \<noteq> [] \<Longrightarrow> \<forall>c\<in>set cur. \<not> is_space c \<Longrightarrow>
       rtrim (rev cur @ collapse_ws False cs) = str_join (str_split_acc cur cs)"
    using Cons.IH by blast
  have IH2: "rtrim (collapse_ws True cs) = str_join (str_split_acc [] cs)"
    using Cons.IH by blast
  show ?case
  proof (cases "is_space c")
    case True
    have tail: "str_split_acc [] cs \<noteq> [] \<Longrightarrow> str_join (str_split_acc [] cs) \<noteq> []"
      by (rule str_join_nonempty) (auto dest: str_split_acc_nonempty [of "[]", rotated])
    have "rtrim (rev cur @ collapse_ws False (c # cs)) = str_join (str_split_acc cur (c # cs))"
      if cur: "cur \<noteq> []" "\<forall>c\<in>set cur. \<not> is_space c" for cur
    proof -
      have "rtrim (rev cur @ CHR 0x20 # collapse_ws True cs)
              = (if str_split_acc [] cs = [] then rev cur
                 else rev cur @ CHR 0x20 # str_join (str_split_acc [] cs))"
      proof (cases "str_split_acc [] cs = []")
        case True
        then have "rtrim (collapse_ws True cs) = []"
          using IH2 by simp
        then have "rtrim (CHR 0x20 # collapse_ws True cs) = []"
          using rtrim_append [of "[CHR 0x20]" "collapse_ws True cs"]
          by (simp add: rtrim_def ltrim_def)
        then show ?thesis
          using True rtrim_append [of "rev cur" "CHR 0x20 # collapse_ws True cs"]
            rtrim_word [OF cur] by simp
      next
        case False
        then have ne: "rtrim (collapse_ws True cs) \<noteq> []"
          using IH2 tail by simp
        then have "rtrim (CHR 0x20 # collapse_ws True cs) = CHR 0x20 # rtrim (collapse_ws True cs)"
          using rtrim_append [of "[CHR 0x20]" "collapse_ws True cs"] by simp
        then show ?thesis
          using False IH2 rtrim_append [of "rev cur" "CHR 0x20 # collapse_ws True cs"] by simp
      qed
      then show ?thesis
        using True cur by (simp add: str_join_Cons)
    qed
    moreover have "rtrim (collapse_ws True (c # cs)) = str_join (str_split_acc [] (c # cs))"
      using True IH2 by simp
    ultimately show ?thesis by blast
  next
    case False
    have "rtrim (rev cur @ collapse_ws False (c # cs)) = str_join (str_split_acc cur (c # cs))"
      if cur: "cur \<noteq> []" "\<forall>c\<in>set cur. \<not> is_space c" for cur
      using False cur IH1 [of "c # cur"] by simp
    moreover have "rtrim (collapse_ws True (c # cs)) = str_join (str_split_acc [] (c # cs))"
      using False IH1 [of "[c]"] by simp
    ultimately show ?thesis by blast
  qed
qed

lemma ltrim_collapse_ws: "ltrim (collapse_ws in_run s) = collapse_ws True s"
proof (induction s arbitrary: in_run)
  case Nil
  then show ?case by (simp add: ltrim_def)
next
  case (Cons c cs)
  show ?case
  proof (cases "is_space c")
    case True
    then show ?thesis
      using Cons.IH [of True] by (simp add: ltrim_def)
  next
    case False
    then have "c \<noteq> CHR 0x20" by auto
    then show ?thesis
      using False by (simp add: ltrim_def)
  qed
qed

lemma normalize_ws_words: "normalize_ws s = str_join (str_split s)"
  using collapse_ws_words [of s] by (simp add: normalize_ws_def ltrim_collapse_ws str_split_def)

text \<open>
  Claim C5. For a text split with an empty reserved tail and the tail not included, the
  chunks joined with single blanks equal the text after both are normalised (every
  maximal whitespace run, newlines included, collapsed to one blank, and trimmed); and
  splitting the empty text gives no chunk at all.
\<close>

theorem split_rejoin_normalized:
  assumes "split_into_chunks p text [] False = Inr chunks"
  shows "normalize_ws (str_join chunks) = normalize_ws text
         \<and> split_into_chunks p [] [] False = Inr []"
proof
  show "normalize_ws (str_join chunks) = normalize_ws text"
    using split_into_chunks_words [OF assms] by (simp add: normalize_ws_words)
  have "0 < effective_chunk_size p [] False"
    using assms by (simp add: split_into_chunks_def Let_def split: if_splits)
  then show "split_into_chunks p [] [] False = Inr []"
    by (simp add: split_into_chunks_def str_splitlines_def)
qed

theorem split_rejoin_normalized_witness:
  "split_into_chunks \<lparr>model_name = ''m'', max_tokens = 200, chunk_size = 2\<rparr>
       (''  aa  bb'' @ [CHR 0x0D, CHR 0x0A] @ ''cc'' @ [CHR 0x09] @ ''dddddddddddddddd ee''
          @ [CHR 0x0A]) [] False
     = Inr [''  aa  bb'', ''cc'', ''dddddddddddddddd'', ''ee'']
   \<and> normalize_ws (str_join [''  aa  bb'', ''cc'', ''dddddddddddddddd'', ''ee''])
     = ''aa bb cc dddddddddddddddd ee''
   \<and> normalize_ws (''  aa  bb'' @ [CHR 0x0D, CHR 0x0A] @ ''cc'' @ [CHR 0x09]
                    @ ''dddddddddddddddd ee'' @ [CHR 0x0A])
     = ''aa bb cc dddddddddddddddd ee''
   \<and> split_into_chunks \<lparr>model_name = ''m'', max_tokens = 200, chunk_size = 2\<rparr> [] [] False
     = Inr []"
proof -
  let ?p = "\<lparr>model_name = ''m'', max_tokens = 200, chunk_size = 2\<rparr>"
  let ?text = "''  aa  bb'' @ [CHR 0x0D, CHR 0x0A] @ ''cc'' @ [CHR 0x09] @ ''dddddddddddddddd ee''
          @ [CHR 0x0A]"
  have run: "split_into_chunks ?p ?text [] False
               = Inr [''  aa  bb'', ''cc'', ''dddddddddddddddd'', ''ee'']"
    by code_simp
  have norm: "normalize_ws ?text = ''aa bb cc dddddddddddddddd ee''"
    by code_simp
  show ?thesis
    using run norm split_rejoin_normalized [OF run] by simp
qed

section \<open>Sequencing of failures\<close>

lemma ebind_Inr: "(ebind m f = Inr y) = (\<exists>x. m = Inr x \<and> f x = Inr y)"
  by (cases m) (simp_all add: ebind_def)

lemma ebind_InrE:
  assumes "ebind m f = Inr y"
  obtains x where "m = Inr x" and "f x = Inr y"
  using assms by (auto simp: ebind_Inr)

section \<open>A failed reservation ends the chat run\<close>

lemma chat_loop_append:
  "chat_loop p fmt post ps incl i st (xs @ ys) =
     (case chat_loop p fmt post ps incl i st xs of
        Inl e \<Rightarrow> Inl e
      | Inr st' \<Rightarrow> chat_loop p fmt post ps incl (i + length xs) st' ys)"
  by (induction xs arbitrary: i st) (simp_all split: sum.splits)

lemma chat_loop_fails_on_reservation:
  assumes "(if i = 0 then Inr (initial ps) else fmt (follow_up_template ps) tail) = Inr prompt"
    and "calculate_reserved_tokens p prompt chunk tail_tokens = Inl e"
  shows "chat_loop p fmt post ps incl i (tail, tail_tokens, results) (chunk # rest) = Inl e"
  using assms by (simp add: ebind_def split: if_splits)

text \<open>
  Claim C9. If the chunk with index \<open>k\<close> is reached (the chunks before it were
  completed and left their results) and its prompt, its text and the carried tail leave
  no token for the response, the whole call fails with InsufficientBudget: the value
  returned is the error, and none of the results of the earlier chunks.
\<close>

theorem reservation_failure_aborts_run:
  assumes split: "split_into_chunks p context [] (include_last_chunk_of opts) = Inr chunks"
    and k: "k < length chunks"
    and earlier: "chat_loop p fmt post ps (include_last_chunk_of opts) 0 ([], 0, []) (take k chunks)
                    = Inr (tail, tail_tokens, partial_results)"
    and prompt: "(if k = 0 then Inr (initial ps) else fmt (follow_up_template ps) tail) = Inr prompt"
    and reserved: "max_tokens p - (count_tokens prompt + count_tokens (chunks ! k) + tail_tokens) \<le> 0"
  shows "chat_process p fmt post context ps opts = Inl InsufficientBudget"
proof -
  let ?incl = "include_last_chunk_of opts"
  have fail: "calculate_reserved_tokens p prompt (chunks ! k) tail_tokens = Inl InsufficientBudget"
    using reserved by (simp add: calculate_reserved_tokens_def Let_def)
  have len: "length (take k chunks) = k"
    using k by simp
  have "chunks = take k chunks @ chunks ! k # drop (Suc k) chunks"
    using k by (simp add: id_take_nth_drop)
  then have "chat_loop p fmt post ps ?incl 0 ([], 0, []) chunks
               = chat_loop p fmt post ps ?incl 0 ([], 0, [])
                   (take k chunks @ chunks ! k # drop (Suc k) chunks)"
    by simp
  also have "\<dots> = chat_loop p fmt post ps ?incl k (tail, tail_tokens, partial_results)
                      (chunks ! k # drop (Suc k) chunks)"
    using earlier len by (simp only: chat_loop_append) simp
  also have "\<dots> = Inl InsufficientBudget"
    using prompt fail by (rule chat_loop_fails_on_reservation)
  finally show ?thesis
    using split by (simp add: chat_process_def chat_run_def Let_def)
qed

theorem reservation_failure_aborts_run_witness:
  "chat_process \<lparr>model_name = ''m'', max_tokens = 4, chunk_size = 2\<rparr>
       (\<lambda>template tail. Inr (''y z '' @ tail))
       (\<lambda>i payload. Inr (JObj [(''choices'',
            JArr [JObj [(''message'', JObj [(''content'', JStr ''ok'')])]])]) :: error + int json)
       (''aa'' @ [CHR 0x0A] @ ''bb cc'')
       \<lparr>initial = ''x'', follow_up_template = ''y z {last_chunk_end}''\<rparr> None
     = Inl InsufficientBudget
   \<and> chat_loop \<lparr>model_name = ''m'', max_tokens = 4, chunk_size = 2\<rparr>
       (\<lambda>template tail. Inr (''y z '' @ tail))
       (\<lambda>i payload. Inr (JObj [(''choices'',
            JArr [JObj [(''message'', JObj [(''content'', JStr ''ok'')])]])]) :: error + int json)
       \<lparr>initial = ''x'', follow_up_template = ''y z {last_chunk_end}''\<rparr> False 0 ([], 0, [])
       [''aa'']
     = Inr ([], 0, [\<lparr>res_index = 1, res_input_text = ''aa'', res_response_text = JStr ''ok''\<rparr>])"
proof -
  let ?p = "\<lparr>model_name = ''m'', max_tokens = 4, chunk_size = 2\<rparr>"
  let ?fmt = "\<lambda>(template::string) tail. (Inr (''y z '' @ tail) :: error + string)"
  let ?post = "\<lambda>(i::nat) (payload::int json). (Inr (JObj [(''choices'',
            JArr [JObj [(''message'', JObj [(''content'', JStr ''ok'')])]])]) :: error + int json)"
  let ?ps = "\<lparr>initial = ''x'', follow_up_template = ''y z {last_chunk_end}''\<rparr>"
  let ?chunks = "[''aa'', ''bb cc'']"
  have split: "split_into_chunks ?p (''aa'' @ [CHR 0x0A] @ ''bb cc'') [] (include_last_chunk_of None)
                 = Inr ?chunks"
    by code_simp
  have k: "(1::nat) < length ?chunks"
    by simp
  have earlier: "chat_loop ?p ?fmt ?post ?ps (include_last_chunk_of None) 0 ([], 0, []) (take 1 ?chunks)
       = Inr ([], 0, [\<lparr>res_index = 1, res_input_text = ''aa'', res_response_text = JStr ''ok''\<rparr>])"
    by code_simp
  have prompt: "(if (1::nat) = 0 then Inr (initial ?ps) else ?fmt (follow_up_template ?ps) [])
                  = Inr ''y z ''"
    by simp
  have reserved: "max_tokens ?p - (count_tokens ''y z '' + count_tokens (?chunks ! 1) + 0) \<le> 0"
    by code_simp
  have incl: "include_last_chunk_of None = False"
    by (simp add: include_last_chunk_of_def)
  show ?thesis
    using reservation_failure_aborts_run [OF split k earlier prompt reserved] earlier
    by (simp add: incl)
qed

section \<open>The index of a result item\<close>

lemma chat_step_results:
  assumes "chat_step p fmt post ps incl i (lce, lctc, results) chunk = Inr (lce', lctc', results')"
  shows "map res_index results' = map res_index results @ [int i + 1]"
  using assms
  apply (simp only: chat_step.simps)
  apply (elim ebind_InrE)
  apply (simp only: Let_def)
  apply (cases incl)
   apply (auto elim!: ebind_InrE)
  done

lemma chat_loop_indices:
  "chat_loop p fmt post ps incl i (lce, lctc, results) chunks = Inr (lce', lctc', results')
     \<Longrightarrow> map res_index results'
           = map res_index results @ map (\<lambda>k. int k + 1) [i..<i + length chunks]"
proof (induction chunks arbitrary: i lce lctc results)
  case Nil
  then show ?case by simp
next
  case (Cons chunk rest)
  from Cons.prems obtain st where step: "chat_step p fmt post ps incl i (lce, lctc, results) chunk = Inr st"
    and loop: "chat_loop p fmt post ps incl (Suc i) st rest = Inr (lce', lctc', results')"
    by (cases "chat_step p fmt post ps incl i (lce, lctc, results) chunk") simp_all
  obtain a b c where st: "st = (a, b, c)"
    by (cases st)
  have "map res_index c = map res_index results @ [int i + 1]"
    using step unfolding st by (rule chat_step_results)
  moreover have "map res_index results' = map res_index c @ map (\<lambda>k. int k + 1) [Suc i..<Suc i + length rest]"
    using loop unfolding st by (rule Cons.IH)
  ultimately show ?case
    by (simp add: upt_conv_Cons del: upt_Suc)
qed

lemma chat_process_indices:
  assumes "chat_process p fmt post context ps opts = Inr results" and "k < length results"
  shows "res_index (results ! k) = int k + 1"
proof -
  obtain chunks lce lctc where
    "chat_loop p fmt post ps (include_last_chunk_of opts) 0 ([], 0, []) chunks = Inr (lce, lctc, results)"
    using assms(1)
    by (auto simp: chat_process_def chat_run_def Let_def split: sum.splits)
  then have m: "map res_index results = map (\<lambda>k. int k + 1) [0..<length chunks]"
    using chat_loop_indices [of p fmt post ps "include_last_chunk_of opts" 0 "[]" 0 "[]" chunks]
    by simp
  have len: "length results = length chunks"
    using arg_cong [OF m, of length] by simp
  have "res_index (results ! k) = map res_index results ! k"
    using assms(2) by simp
  also have "\<dots> = int k + 1"
    using assms(2) len by (simp only: m) simp
  finally show ?thesis .
qed

lemma embeddings_loop_indices:
  "embeddings_loop p post i embeddings messages = Inr embeddings'
     \<Longrightarrow> map emb_index embeddings'
           = map emb_index embeddings @ map int [i..<i + length messages]"
proof (induction messages arbitrary: i embeddings)
  case Nil
  then show ?case by simp
next
  case (Cons message rest)
  from Cons.prems obtain embedding where
    "embeddings_loop p post (Suc i)
       (embeddings @ [\<lparr>emb_index = int i, emb_message = message, emb_embedding = embedding\<rparr>]) rest
       = Inr embeddings'"
    by (cases "embeddings_call_model p (post i) [] message") simp_all
  then have "map emb_index embeddings'
      = map emb_index (embeddings @ [\<lparr>emb_index = int i, emb_message = message, emb_embedding = embedding\<rparr>])
        @ map int [Suc i..<Suc i + length rest]"
    by (rule Cons.IH)
  then show ?case
    by (simp add: upt_conv_Cons del: upt_Suc)
qed

lemma embeddings_process_indices:
  assumes "embeddings_process p post context = Inr results" and "k < length results"
  shows "emb_index (results ! k) = int k"
proof -
  obtain messages where "embeddings_loop p post 0 [] messages = Inr results"
    using assms(1) by (cases "context") (simp_all add: embeddings_process_def)
  then have m: "map emb_index results = map int [0..<length messages]"
    using embeddings_loop_indices [of p post 0 "[]" messages] by simp
  have len: "length results = length messages"
    using arg_cong [OF m, of length] by simp
  have "emb_index (results ! k) = map emb_index results ! k"
    using assms(2) by simp
  also have "\<dots> = int k"
    using assms(2) len by (simp only: m) simp
  finally show ?thesis .
qed

text \<open>
  Claim C1 says that every result item carries its 1-based position, in both modes. The
  chat run does (\<open>chat_process_indices\<close>). The embeddings run stores the index that
  \<open>enumerate\<close> gives (\<open>embeddings_process_indices\<close>): for a single message and a
  well-formed response the only item has index 0, where the claim says 1.
\<close>

theorem embeddings_first_index_is_zero:
  "embeddings_process p
     (\<lambda>i payload. Inr (JObj [(''data'', JArr [JObj [(''embedding'', JArr vector)]])]))
     (PyList [message])
   = Inr [\<lparr>emb_index = 0, emb_message = message, emb_embedding = JArr vector\<rparr>]"
  by (simp add: embeddings_process_def embeddings_call_model_def ebind_def py_get_def
      py_first_def py_len_def)

section \<open>The carried tail\<close>

lemma extract_loop_bound:
  "tc = sum_list (map count_tokens result) \<Longrightarrow> tc \<le> limit
     \<Longrightarrow> sum_list (map count_tokens (extract_loop limit (result, tc) ws)) \<le> limit"
proof (induction ws arbitrary: result tc)
  case Nil
  then show ?case by simp
next
  case (Cons w ws)
  show ?case
  proof (cases "tc + count_tokens w > limit")
    case True
    then show ?thesis using Cons.prems by simp
  next
    case False
    have "sum_list (map count_tokens (extract_loop limit (result @ [w], tc + count_tokens w) ws)) \<le> limit"
      by (rule Cons.IH) (use Cons.prems False in simp_all)
    then show ?thesis using False by simp
  qed
qed

lemma extract_last_chunk_end_bound:
  "0 \<le> limit \<Longrightarrow> count_tokens (extract_last_chunk_end s limit) \<le> limit"
  using extract_loop_bound [of 0 "[]" limit "rev (str_split s)"]
  by (simp add: extract_last_chunk_end_def count_tokens_str_join rev_map [symmetric])

lemma chat_step_tail_bound:
  assumes "chat_step p fmt post ps incl i (lce, lctc, results) chunk = Inr (lce', lctc', results')"
    and "lctc = count_tokens lce" and "count_tokens lce \<le> 50"
  shows "lctc' = count_tokens lce' \<and> count_tokens lce' \<le> 50"
proof (cases incl)
  case True
  then obtain s where "lce' = extract_last_chunk_end s 50" "lctc' = count_tokens lce'"
    using assms(1)
    by (auto simp: ebind_def Let_def extract_from_response_def
             split: sum.splits if_splits json.splits)
  then show ?thesis
    by (simp add: extract_last_chunk_end_bound)
next
  case False
  then have "lce' = lce" "lctc' = lctc"
    using assms(1) by (auto simp: ebind_def Let_def split: sum.splits if_splits)
  then show ?thesis
    using assms(2,3) by simp
qed

lemma chat_loop_tail_bound:
  "chat_loop p fmt post ps incl i (lce, lctc, results) chunks = Inr (lce', lctc', results')
     \<Longrightarrow> lctc = count_tokens lce \<Longrightarrow> count_tokens lce \<le> 50
     \<Longrightarrow> lctc' = count_tokens lce' \<and> count_tokens lce' \<le> 50"
proof (induction chunks arbitrary: i lce lctc results)
  case Nil
  then show ?case by auto
next
  case (Cons chunk rest)
  from Cons.prems(1) obtain st where step: "chat_step p fmt post ps incl i (lce, lctc, results) chunk = Inr st"
    and loop: "chat_loop p fmt post ps incl (Suc i) st rest = Inr (lce', lctc', results')"
    by (cases "chat_step p fmt post ps incl i (lce, lctc, results) chunk") simp_all
  obtain a b c where st: "st = (a, b, c)"
    by (cases st)
  have "b = count_tokens a \<and> count_tokens a \<le> 50"
    using chat_step_tail_bound step st Cons.prems(2,3) by blast
  then show ?case
    using Cons.IH loop st by blast
qed

lemma chat_run_tail_bound:
  assumes "chat_run p fmt post context ps opts = Inr (tail, tail_tokens, results)"
  shows "tail_tokens = count_tokens tail \<and> count_tokens tail \<le> 50"
proof -
  obtain chunks where
    "chat_loop p fmt post ps (include_last_chunk_of opts) 0 ([], 0, []) chunks
       = Inr (tail, tail_tokens, results)"
    using assms by (auto simp: chat_run_def Let_def split: sum.splits)
  then show ?thesis
    by (rule chat_loop_tail_bound) simp_all
qed

text \<open>
  Claim C2 says that the carried tail is bounded by the caller's
  \<open>last_chunk_token_count\<close> option. The run never reads that option: the tail is
  extracted with the limit 50 (\<open>chat_run_tail_bound\<close>). A caller who asks for at
  most 3 tokens and receives the response "one two three four five" carries all five
  words, 5 tokens, into the second chunk and out of the loop.
\<close>

theorem tail_ignores_caller_bound:
  "chat_run \<lparr>model_name = ''m'', max_tokens = 200, chunk_size = 2\<rparr>
     (\<lambda>template tail. Inr (''Continue from: '' @ tail))
     (\<lambda>i payload. Inr (JObj [(''choices'', JArr [JObj [(''message'',
          JObj [(''content'', JStr ''one two three four five'')])]])]) :: error + int json)
     (''aa bb'' @ [CHR 0x0A] @ ''cc dd'')
     \<lparr>initial = ''Summarize:'', follow_up_template = ''Continue from: {last_chunk_end}''\<rparr>
     (Some \<lparr>opt_include_last_chunk = Some True, opt_last_chunk_token_count = Some 3\<rparr>)
   = Inr (''one two three four five'', 5,
          [\<lparr>res_index = 1, res_input_text = ''aa bb'',
             res_response_text = JStr ''one two three four five''\<rparr>,
           \<lparr>res_index = 2, res_input_text = ''cc dd'',
             res_response_text = JStr ''one two three four five''\<rparr>])
   \<and> count_tokens ''one two three four five'' = 5"
  by code_simp

section \<open>Malformed responses\<close>

text \<open>
  A key that is missing from the response is replaced by its default, down to the empty
  string and the empty vector.
\<close>

lemma missing_fields_degrade:
  "chat_call_model p (\<lambda>payload. Inr (JObj [])) prompt input_text = Inr (JStr [])"
  "chat_call_model p (\<lambda>payload. Inr (JObj [(''choices'', JArr [JObj []])])) prompt input_text
     = Inr (JStr [])"
  "chat_call_model p (\<lambda>payload. Inr (JObj [(''choices'', JArr [JObj [(''message'', JObj [])]])]))
     prompt input_text = Inr (JStr [])"
  "embeddings_call_model p (\<lambda>payload. Inr (JObj [])) prompt input_text = Inr (JArr [])"
  "embeddings_call_model p (\<lambda>payload. Inr (JObj [(''data'', JArr [JObj []])])) prompt input_text
     = Inr (JArr [])"
  by (simp_all add: chat_call_model_def embeddings_call_model_def ebind_def py_get_def
      py_first_def py_len_def format_with_truncation_def)

text \<open>
  Claim C3 says that no malformed response is escalated to an error. A response whose
  \<open>choices\<close> (or \<open>data\<close>) is an empty list raises IndexError at \<open>[0]\<close>, a
  response whose \<open>content\<close> is null raises TypeError at \<open>len\<close>, and the exception
  ends the whole run: the chat run over "Hi!" returns the IndexError and no result.
\<close>

theorem malformed_response_raises:
  "chat_call_model p (\<lambda>payload. Inr (JObj [(''choices'', JArr [])])) prompt input_text
     = Inl IndexError
   \<and> chat_call_model p
       (\<lambda>payload. Inr (JObj [(''choices'', JArr [JObj [(''message'',
            JObj [(''content'', JNull)])]])])) prompt input_text
     = Inl TypeError
   \<and> embeddings_call_model p (\<lambda>payload. Inr (JObj [(''data'', JArr [])])) prompt input_text
     = Inl IndexError
   \<and> chat_process \<lparr>model_name = ''mock_chat_model'', max_tokens = 200, chunk_size = 140\<rparr>
       (\<lambda>template tail. Inr (''Continue with '' @ tail))
       (\<lambda>i payload. Inr (JObj [(''choices'', JArr [])]))
       ''Hi!'' \<lparr>initial = ''Start the chat:'', follow_up_template = ''Continue with {last_chunk_end}''\<rparr>
       None
     = Inl IndexError"
proof -
  have 1: "chat_call_model p (\<lambda>payload. Inr (JObj [(''choices'', JArr [])])) prompt input_text
     = Inl IndexError" for p :: processor and prompt input_text
    by (simp add: chat_call_model_def ebind_def py_get_def py_first_def)
  have 2: "chat_call_model p
       (\<lambda>payload. Inr (JObj [(''choices'', JArr [JObj [(''message'',
            JObj [(''content'', JNull)])]])])) prompt input_text
     = Inl TypeError"
    by (simp add: chat_call_model_def ebind_def py_get_def py_first_def py_len_def
        format_with_truncation_def)
  have 3: "embeddings_call_model p (\<lambda>payload. Inr (JObj [(''data'', JArr [])])) prompt input_text
     = Inl IndexError"
    by (simp add: embeddings_call_model_def ebind_def py_get_def py_first_def)
  have split: "split_into_chunks \<lparr>model_name = ''mock_chat_model'', max_tokens = 200, chunk_size = 140\<rparr>
                 ''Hi!'' [] False = Inr [''Hi!'']"
    by code_simp
  have reserve: "calculate_reserved_tokens
        \<lparr>model_name = ''mock_chat_model'', max_tokens = 200, chunk_size = 140\<rparr>
        ''Start the chat:'' ''Hi!'' 0 = Inr 194"
    by code_simp
  have 4: "chat_process \<lparr>model_name = ''mock_chat_model'', max_tokens = 200, chunk_size = 140\<rparr>
       (\<lambda>template tail. Inr (''Continue with '' @ tail))
       (\<lambda>i payload. Inr (JObj [(''choices'', JArr [])]))
       ''Hi!'' \<lparr>initial = ''Start the chat:'', follow_up_template = ''Continue with {last_chunk_end}''\<rparr>
       None
     = Inl IndexError"
    by (simp add: chat_process_def chat_run_def include_last_chunk_of_def split reserve 1 ebind_def)
  show ?thesis
    using 1 2 3 4 by blast
qed

section \<open>The chunk size in double arithmetic\<close>

lemma pow2_powi: "pow2 k = 2 powi k"
  by (simp add: pow2_def power_int_def field_simps)

lemma pow2_pos: "0 < pow2 k"
  by (simp add: pow2_def)

lemma round_half_even_nonneg: "0 \<le> x \<Longrightarrow> 0 \<le> round_half_even x"
  by (simp add: round_half_even_def Let_def)

lemma round_double_nonneg: "0 \<le> q \<Longrightarrow> 0 \<le> round_double q"
  by (simp add: round_double_def Let_def round_half_even_nonneg pow2_pos less_imp_le)

lemma round_half_even_of_int: "round_half_even (of_int k) = k"
  by (simp add: round_half_even_def)

lemma exponent_of_le:
  assumes "0 < q"
  shows "pow2 (exponent_of q) \<le> q"
proof -
  obtain a b where ab: "quotient_of q = (a, b)"
    by (cases "quotient_of q")
  have b: "0 < b" and q: "q = of_int a / of_int b"
    using ab quotient_of_denom_pos quotient_of_div by blast+
  have a: "0 < a"
    using assms b q by (simp add: zero_less_divide_iff)
  let ?d = "bitlen a - bitlen b"
  show ?thesis
  proof (cases "pow2 ?d \<le> q")
    case True
    then show ?thesis by (simp add: exponent_of_def ab)
  next
    case False
    have la: "(2::int) ^ nat (bitlen a - 1) \<le> a" and lb: "b < 2 ^ nat (bitlen b)"
      using bitlen_bounds [OF a] bitlen_bounds [OF b] by simp_all
    have pa: "1 \<le> bitlen a" and pb: "1 \<le> bitlen b"
      using a b bitlen_eq_zero_iff [of a] bitlen_eq_zero_iff [of b] bitlen_nonneg [of a] bitlen_nonneg [of b]
      by linarith+
    have ra: "(2::rat) powi (bitlen a - 1) \<le> of_int a"
    proof -
      have "(of_int ((2::int) ^ nat (bitlen a - 1)) :: rat) \<le> of_int a"
        using la by (simp only: of_int_le_iff)
      then show ?thesis using pa by (simp add: power_int_def)
    qed
    have rb: "(of_int b :: rat) \<le> 2 powi (bitlen b)"
    proof -
      have "(of_int b :: rat) < of_int ((2::int) ^ nat (bitlen b))"
        using lb by (simp only: of_int_less_iff)
      then show ?thesis using pb by (simp add: power_int_def)
    qed
    have "(2::rat) powi (?d - 1) = 2 powi (bitlen a - 1) / 2 powi (bitlen b)"
      by (simp add: power_int_diff)
    also have "\<dots> \<le> of_int a / 2 powi (bitlen b)"
      using ra by (simp add: divide_right_mono)
    also have "\<dots> \<le> of_int a / of_int b"
      using rb a b by (simp add: frac_le)
    finally have "pow2 (?d - 1) \<le> q"
      by (simp add: pow2_powi q)
    then show ?thesis
      using False by (simp add: exponent_of_def ab)
  qed
qed

lemma pow2_mono: "a \<le> b \<Longrightarrow> pow2 a \<le> pow2 b"
  by (simp add: pow2_powi power_int_increasing)

lemma round_double_of_int:
  assumes "\<bar>m\<bar> < 2 ^ 53"
  shows "round_double (of_int m) = of_int m"
proof (cases "m = 0")
  case True
  then show ?thesis by (simp add: round_double_def)
next
  case False
  let ?e = "exponent_of \<bar>of_int m\<bar>"
  have pos: "(0::rat) < \<bar>of_int m\<bar>"
    using False by simp
  have "pow2 ?e \<le> \<bar>of_int m\<bar>"
    using pos by (rule exponent_of_le)
  also have "\<dots> < pow2 53"
  proof -
    have "(of_int \<bar>m\<bar> :: rat) < of_int (2 ^ 53)"
      using assms by (simp only: of_int_less_iff)
    then show ?thesis by (simp add: pow2_def)
  qed
  finally have "pow2 ?e < pow2 53" .
  then have e: "?e \<le> 52"
    using pow2_mono [of 53 ?e] by (cases "?e \<le> 52") auto
  define n where "n = nat (52 - ?e)"
  have ulp: "pow2 (?e - 52) = 1 / 2 ^ n"
    using e by (auto simp: pow2_def n_def) 
  have "of_int m / pow2 (?e - 52) = (of_int (m * 2 ^ n) :: rat)"
    by (simp add: ulp)
  then have "round_half_even (of_int m / pow2 (?e - 52)) = m * 2 ^ n"
    by (simp only: round_half_even_of_int)
  then show ?thesis
    using False by (simp add: round_double_def Let_def ulp)
qed

lemma float_of_int_exact:
  assumes "\<bar>m\<bar> < 2 ^ 53"
  shows "float_of_int m = Inr (of_int m)"
proof -
  have "(of_int \<bar>m\<bar> :: rat) < of_int (2 ^ 53)"
    using assms by (simp only: of_int_less_iff)
  then have "\<bar>of_int m :: rat\<bar> < 2 ^ 53"
    by simp
  also have "(2::rat) ^ 53 \<le> pow2 1024"
    by (simp add: pow2_def power_increasing)
  finally show ?thesis
    by (simp add: float_of_int_def round_double_of_int [OF assms] Let_def)
qed

lemma exponent_of_two_power: "exponent_of (2 ^ k) = int k"
proof -
  have "quotient_of ((2::rat) ^ k) = (2 ^ k, 1)"
    using quotient_of_int [of "2 ^ k"] by (simp add: Rat.of_int_def)
  moreover have "bitlen (2 ^ k) = int k + 1"
    using bitlen_pow2 [of 1 k] by (simp add: compute_bitlen [of 1])
  moreover have "bitlen 1 = 1"
    by (simp add: compute_bitlen [of 1])
  ultimately show ?thesis
    by (simp add: exponent_of_def pow2_def)
qed

lemma round_double_two_power: "round_double (2 ^ k) = 2 ^ k"
proof -
  have "(2::rat) ^ k / pow2 (int k - 52) = of_int (2 ^ 52)"
    by (simp add: pow2_powi power_int_diff)
  then have "round_half_even (2 ^ k / pow2 (int k - 52)) = 2 ^ 52"
    by (simp only: round_half_even_of_int)
  moreover have "of_int (2 ^ 52) * pow2 (int k - 52) = (2::rat) ^ k"
    by (simp add: pow2_powi power_int_diff)
  ultimately show ?thesis
    by (simp add: round_double_def Let_def exponent_of_two_power)
qed

lemma float_of_int_overflow: "1024 \<le> k \<Longrightarrow> float_of_int (2 ^ k) = Inl OverflowError"
proof -
  assume "1024 \<le> k"
  then have "(2::rat) ^ 1024 \<le> 2 ^ k"
    by (intro power_increasing) simp_all
  then show ?thesis
    using round_double_two_power [of k]
    by (simp add: float_of_int_def Let_def pow2_def)
qed

text \<open>
  Claim C6 says that for a ratio strictly between 0 and 1 the chunk size is the floor of
  \<open>max_tokens * (1 - response_ratio)\<close>. The code computes the difference and the
  product in floats, and the rounding can reach the next integer: for \<open>max_tokens = 10\<close>
  and the float 0.30000000000000004, which is \<open>1351079888211149 / 2 ^ 52\<close>, the
  difference is the float nearest to 0.7, ten times that lies halfway between two floats
  and is rounded to 7.0, and the code returns 7, while the floor of the exact product
  is 6.
\<close>

theorem chunk_size_differs_from_exact_floor:
  "is_double (1351079888211149 / 2 ^ 52)
   \<and> (0::rat) < 1351079888211149 / 2 ^ 52 \<and> (1351079888211149 / 2 ^ 52 :: rat) < 1
   \<and> calculate_chunk_size 10 (Some (Finite (1351079888211149 / 2 ^ 52))) = Inr 7
   \<and> \<lfloor>(10::rat) * (1 - 1351079888211149 / 2 ^ 52)\<rfloor> = 6
   \<and> calculate_chunk_size 10 (Some (Finite (1351079888211149 / 2 ^ 52)))
       \<noteq> Inr \<lfloor>(10::rat) * (1 - 1351079888211149 / 2 ^ 52)\<rfloor>"
proof -
  have 1: "is_double (1351079888211149 / 2 ^ 52)"
    by code_simp
  have 2: "calculate_chunk_size 10 (Some (Finite (1351079888211149 / 2 ^ 52))) = Inr 7"
    by code_simp
  have 3: "\<lfloor>(10::rat) * (1 - 1351079888211149 / 2 ^ 52)\<rfloor> = 6"
    by code_simp
  show ?thesis
    using 1 by (simp only: 2 3) simp
qed

text \<open>
  Claim C6 as the code has it. Without a ratio the chunk size is \<open>max_tokens\<close>. A
  ratio that is not strictly between 0 and 1 (NaN and the infinities among them) fails
  with InvalidConfiguration. For a ratio strictly between 0 and 1 and a \<open>max_tokens\<close>
  that is not negative, the chunk size is the floor of the float product: of
  \<open>max_tokens\<close> as a float (which is \<open>max_tokens\<close> itself below \<open>2 ^ 53\<close>, lemma
  \<open>float_of_int_exact\<close>) times the float difference \<open>1 - response_ratio\<close>, both
  operations rounded to the nearest float; a \<open>max_tokens\<close> too large for a float is an
  OverflowError. With \<open>max_tokens = 200\<close> the float 0.3, which is
  \<open>5404319552844595 / 2 ^ 54\<close>, gives 140, and no ratio gives 200.
\<close>

theorem calculate_chunk_size_spec:
  "calculate_chunk_size m None = Inr m
   \<and> (\<not> (float_less (Finite 0) r \<and> float_less r (Finite 1))
        \<longrightarrow> calculate_chunk_size m (Some r) = Inl InvalidConfiguration)
   \<and> (0 < q \<and> q < 1 \<and> 0 \<le> m \<and> float_of_int m = Inr x
        \<longrightarrow> calculate_chunk_size m (Some (Finite q))
              = Inr \<lfloor>round_double (x * round_double (1 - q))\<rfloor>)
   \<and> (0 < q \<and> q < 1 \<and> float_of_int n = Inl e
        \<longrightarrow> calculate_chunk_size n (Some (Finite q)) = Inl e)
   \<and> calculate_chunk_size 200 (Some (Finite (5404319552844595 / 2 ^ 54))) = Inr 140
   \<and> calculate_chunk_size 200 None = Inr 200"
proof -
  have none: "calculate_chunk_size k None = Inr k" for k
    by (simp add: calculate_chunk_size_def)
  have invalid: "calculate_chunk_size m (Some r) = Inl InvalidConfiguration"
    if "\<not> (float_less (Finite 0) r \<and> float_less r (Finite 1))"
    using that by (simp add: calculate_chunk_size_def)
  have valid: "calculate_chunk_size m (Some (Finite q))
                 = Inr \<lfloor>round_double (x * round_double (1 - q))\<rfloor>"
    if "0 < q" "q < 1" "0 \<le> m" "float_of_int m = Inr x"
  proof -
    have "x = round_double (of_int m)"
      using that(4) by (simp add: float_of_int_def Let_def split: if_splits)
    then have "0 \<le> x"
      using that(3) by (simp add: round_double_nonneg)
    moreover have "0 \<le> round_double (1 - q)"
      using that(2) by (simp add: round_double_nonneg)
    ultimately have "0 \<le> round_double (x * round_double (1 - q))"
      by (simp add: round_double_nonneg)
    then show ?thesis
      using that by (simp add: calculate_chunk_size_def int_of_float_def)
  qed
  have overflow: "calculate_chunk_size n (Some (Finite q)) = Inl e"
    if "0 < q" "q < 1" "float_of_int n = Inl e"
    using that by (simp add: calculate_chunk_size_def)
  have test: "calculate_chunk_size 200 (Some (Finite (5404319552844595 / 2 ^ 54))) = Inr 140"
    by code_simp
  show ?thesis
    using none invalid valid overflow test by blast
qed

theorem calculate_chunk_size_spec_witness:
  "calculate_chunk_size 10 (Some (Finite (3 / 2))) = Inl InvalidConfiguration
   \<and> float_of_int 10 = Inr 10
   \<and> calculate_chunk_size 10 (Some (Finite (1351079888211149 / 2 ^ 52)))
       = Inr \<lfloor>round_double (10 * round_double (1 - 1351079888211149 / 2 ^ 52))\<rfloor>
   \<and> \<lfloor>round_double (10 * round_double (1 - 1351079888211149 / 2 ^ 52))\<rfloor> = 7
   \<and> float_of_int (2 ^ 1024) = Inl OverflowError
   \<and> calculate_chunk_size (2 ^ 1024) (Some (Finite (1351079888211149 / 2 ^ 52)))
       = Inl OverflowError"
proof -
  let ?q = "1351079888211149 / 2 ^ 52 :: rat"
  have guard: "\<not> (float_less (Finite 0) (Finite (3 / 2)) \<and> float_less (Finite (3 / 2)) (Finite 1))"
    by simp
  have q: "0 < ?q" "?q < 1"
    by simp_all
  have ten: "float_of_int 10 = Inr 10"
    using float_of_int_exact [of 10] by simp
  have big: "float_of_int (2 ^ 1024) = Inl OverflowError"
    by (rule float_of_int_overflow) simp
  have seven: "\<lfloor>round_double (10 * round_double (1 - ?q))\<rfloor> = 7"
    by code_simp
  show ?thesis
    using calculate_chunk_size_spec [of 10 "Finite (3 / 2)" ?q 10 "2 ^ 1024" OverflowError]
      guard q ten big seven
    by simp
qed

end
